theory Spec2Isabelle
  imports Main "HOL-Library.AList" "HOL-Library.Char_ord" "HOL-Library.List_Lexorder"
begin

section \<open>Strings: strings.Split, strings.Join, strings.Contains\<close>

text \<open>
  A Go string is a sequence of bytes, here a \<^typ>\<open>string\<close>. The separator used
  throughout the program is the single byte \<open>.\<close> (for key paths) or the newline (for
  lines); both calls of \<open>strings.Split\<close> have a one-byte separator, so the model takes a
  character. \<open>strings.Split\<close> never returns an empty slice: the empty string splits
  into one empty segment.
\<close>

fun split :: "char \<Rightarrow> string \<Rightarrow> string list" where
  "split sep [] = [[]]"
| "split sep (c # cs) =
     (if c = sep then [] # split sep cs
      else (case split sep cs of
              [] \<Rightarrow> [[c]]
            | w # ws \<Rightarrow> (c # w) # ws))"

fun join :: "string \<Rightarrow> string list \<Rightarrow> string" where
  "join sep [] = []"
| "join sep [s] = s"
| "join sep (s # t # ts) = s @ sep @ join sep (t # ts)"

definition contains :: "string \<Rightarrow> char \<Rightarrow> bool" where
  "contains s c = (c \<in> set s)"

abbreviation splitDot :: "string \<Rightarrow> string list" where
  "splitDot \<equiv> split CHR ''.''"

abbreviation joinDot :: "string list \<Rightarrow> string" where
  "joinDot \<equiv> join ''.''"

section \<open>The document tree: yaml.Node\<close>

text \<open>
  \<open>yaml.Node\<close> of gopkg.in/yaml.v3, with the fields the program reads or writes
  (\<open>Kind\<close>, \<open>Tag\<close>, \<open>Value\<close>, \<open>Content\<close>) and two of the fields it leaves alone
  (\<open>Style\<close>, \<open>Anchor\<close>), so that "overwritten in place" is visible. The comment and
  position fields are never touched by the program and are left out. \<open>ZeroKind\<close> is the
  zero value of \<open>Kind\<close>, which an unparsed \<open>yaml.Node\<close> has. A mapping node keeps its
  entries in \<open>Content\<close> as key node, value node, key node, value node, ...

  The program mutates nodes through pointers. The \<open>Content\<close> pointers of a parsed
  document form a tree, so the model returns the updated tree instead.
\<close>

datatype yaml_kind = ZeroKind | DocumentNode | SequenceNode | MappingNode | ScalarNode | AliasNode

datatype yaml_node =
  Node (Kind: yaml_kind) (Style: nat) (Tag: string) (Value: string) (Anchor: string)
       (Content: "yaml_node list")

text \<open>Indexing a slice out of range panics; the panic ends the process.\<close>

datatype panic = IndexOutOfRange

text \<open>\<open>node.Content = cs\<close>\<close>

definition withContent :: "yaml_node \<Rightarrow> yaml_node list \<Rightarrow> yaml_node" where
  "withContent node cs = Node (Kind node) (Style node) (Tag node) (Value node) (Anchor node) cs"

text \<open>\<open>&yaml.Node{Kind: yaml.ScalarNode, Value: v}\<close> and \<open>&yaml.Node{Kind: yaml.MappingNode}\<close>\<close>

definition newScalar :: "string \<Rightarrow> yaml_node" where
  "newScalar v = Node ScalarNode 0 [] v [] []"

definition newMapping :: "yaml_node" where
  "newMapping = Node MappingNode 0 [] [] [] []"

text \<open>
  The four assignments \<open>n.Value = value; n.Kind = yaml.ScalarNode; n.Tag = ""; n.Content = nil\<close>
  on an existing node \<open>n\<close>.
\<close>

definition setScalar :: "string \<Rightarrow> yaml_node \<Rightarrow> yaml_node" where
  "setScalar v n = Node ScalarNode (Style n) [] v (Anchor n) []"

text \<open>
  The loop \<open>for i := 0; i < len(node.Content); i += 2 { if node.Content[i].Value == k ... }\<close>:
  the first even index whose node has the value \<open>k\<close>.
\<close>

fun findKey :: "string \<Rightarrow> yaml_node list \<Rightarrow> nat option" where
  "findKey k [] = None"
| "findKey k [kn] = (if Value kn = k then Some 0 else None)"
| "findKey k (kn # vn # rest) =
     (if Value kn = k then Some 0 else map_option (\<lambda>i. i + 2) (findKey k rest))"

text \<open>The body of both "found" branches: overwrite \<open>node.Content[i+1]\<close>.\<close>

definition overwriteAt :: "nat \<Rightarrow> string \<Rightarrow> yaml_node \<Rightarrow> panic + yaml_node" where
  "overwriteAt i v node =
     (if i + 1 < length (Content node)
      then Inr (withContent node ((Content node)[i + 1 := setScalar v (Content node ! (i + 1))]))
      else Inl IndexOutOfRange)"

fun hasFlatKeysList :: "yaml_node list \<Rightarrow> bool" where
  "hasFlatKeysList [] = False"
| "hasFlatKeysList [kn] = contains (Value kn) CHR ''.''"
| "hasFlatKeysList (kn # vn # rest) = (contains (Value kn) CHR ''.'' \<or> hasFlatKeysList rest)"

definition hasFlatKeys :: "yaml_node \<Rightarrow> bool" where
  "hasFlatKeys node = hasFlatKeysList (Content node)"

fun addNestedKey :: "yaml_node \<Rightarrow> string list \<Rightarrow> string \<Rightarrow> yaml_node" where
  "addNestedKey node [] v = node"
| "addNestedKey node [k] v = withContent node (Content node @ [newScalar k, newScalar v])"
| "addNestedKey node (k # k' # ks) v =
     withContent node (Content node @ [newScalar k, addNestedKey newMapping (k' # ks) v])"

fun upsertNestedKey :: "yaml_node \<Rightarrow> string list \<Rightarrow> string \<Rightarrow> panic + yaml_node" where
  "upsertNestedKey node [] v = Inr node"
| "upsertNestedKey node (k # ks) v =
     (if Kind node \<noteq> MappingNode then Inr node
      else
        (case findKey (joinDot (k # ks)) (Content node) of
           Some i \<Rightarrow> overwriteAt i v node
         | None \<Rightarrow>
            (case findKey k (Content node) of
               Some i \<Rightarrow>
                 if ks = [] then overwriteAt i v node
                 else if i + 1 < length (Content node) then
                   (if Kind (Content node ! (i + 1)) = MappingNode then
                      (case upsertNestedKey (Content node ! (i + 1)) ks v of
                         Inl e \<Rightarrow> Inl e
                       | Inr c \<Rightarrow> Inr (withContent node ((Content node)[i + 1 := c])))
                    else Inr node)
                 else Inl IndexOutOfRange
             | None \<Rightarrow>
                 if hasFlatKeys node
                 then Inr (withContent node
                            (Content node @ [newScalar (joinDot (k # ks)), newScalar v]))
                 else Inr (addNestedKey node (k # ks) v))))"

section \<open>The patch loop of updateCounterpartFile\<close>

text \<open>\<open>fmt.Sprintf("ref+vault://%s/%s#value", vaultPath, key)\<close>\<close>

definition vaultRef :: "string \<Rightarrow> string \<Rightarrow> string" where
  "vaultRef vaultPath key = ''ref+vault://'' @ vaultPath @ ''/'' @ key @ ''#value''"

text \<open>The body of the loop over \<open>sopsKeys\<close>, for one key.\<close>

definition upsertKey :: "string \<Rightarrow> yaml_node \<Rightarrow> string \<Rightarrow> panic + yaml_node" where
  "upsertKey vaultPath root key = upsertNestedKey root (splitDot key) (vaultRef vaultPath key)"

text \<open>\<open>for _, key := range sopsKeys { ... }\<close>: each key sees the tree the keys before it left.\<close>

fun upsertKeys :: "string \<Rightarrow> yaml_node \<Rightarrow> string list \<Rightarrow> panic + yaml_node" where
  "upsertKeys vaultPath root [] = Inr root"
| "upsertKeys vaultPath root (key # keys) =
     (case upsertKey vaultPath root key of
        Inl e \<Rightarrow> Inl e
      | Inr root' \<Rightarrow> upsertKeys vaultPath root' keys)"

section \<open>detectIndent\<close>

text \<open>
  \<open>strings.TrimLeft(line, " ")\<close> drops the leading spaces of the line and nothing else.
  \<open>len\<close> is a Go \<open>int\<close>; the lengths of lines are far from its bounds.
\<close>

definition newline :: char where "newline = CHR 0x0A"

fun detectIndentLines :: "string list \<Rightarrow> int" where
  "detectIndentLines [] = 2"
| "detectIndentLines (line # lines) =
     (let trimmed = dropWhile (\<lambda>c. c = CHR '' '') line in
      if length trimmed > 0 \<and> length trimmed < length line then
        (let indent = int (length line) - int (length trimmed) in
         if indent > 0 then indent else detectIndentLines lines)
      else detectIndentLines lines)"

definition detectIndent :: "string \<Rightarrow> int" where
  "detectIndent content = detectIndentLines (split newline content)"

section \<open>updateCounterpartFile and its caller\<close>

text \<open>
  The file system as the function sees it: a path is absent (\<open>os.Stat\<close> fails with an
  error for which \<open>os.IsNotExist\<close> holds), or it names something that cannot be read, a
  file that can be read but not written, or a file that can be read and written.
\<close>

datatype fs_entry = Unreadable | ReadOnlyFile string | RegularFile string

type_synonym filesystem = "string \<rightharpoonup> fs_entry"

text \<open>The errors \<open>updateCounterpartFile\<close> returns, by the message each wraps.\<close>

datatype go_error =
  ReadingFile | ParsingYAML | ExpectedMapping yaml_kind | MarshalingYAML | WritingFile

definition readFile :: "fs_entry \<Rightarrow> string option" where
  "readFile e = (case e of Unreadable \<Rightarrow> None | ReadOnlyFile c \<Rightarrow> Some c | RegularFile c \<Rightarrow> Some c)"

definition writeFile :: "filesystem \<Rightarrow> string \<Rightarrow> string \<Rightarrow> filesystem option" where
  "writeFile fs path out =
     (case fs path of
        Some Unreadable \<Rightarrow> None
      | Some (ReadOnlyFile c) \<Rightarrow> None
      | _ \<Rightarrow> Some (fs(path \<mapsto> RegularFile out)))"

text \<open>
  The root mapping of the parsed document is patched through a pointer; \<open>patchRoot\<close>
  returns the document with the patched root in its place, or the error for a document
  whose root is not a mapping.
\<close>

definition patchRoot :: "string \<Rightarrow> string list \<Rightarrow> yaml_node \<Rightarrow> panic + (go_error + yaml_node)" where
  "patchRoot vaultPath sopsKeys doc =
     (if Kind doc = DocumentNode \<and> length (Content doc) > 0 then
        (if Kind (hd (Content doc)) \<noteq> MappingNode then Inr (Inl (ExpectedMapping (Kind doc)))
         else (case upsertKeys vaultPath (hd (Content doc)) sopsKeys of
                 Inl p \<Rightarrow> Inl p
               | Inr root' \<Rightarrow> Inr (Inr (withContent doc (root' # tl (Content doc))))))
      else if Kind doc = MappingNode then
        (case upsertKeys vaultPath doc sopsKeys of
           Inl p \<Rightarrow> Inl p
         | Inr root' \<Rightarrow> Inr (Inr root'))
      else Inr (Inl (ExpectedMapping (Kind doc))))"

text \<open>
  \<open>yaml.Unmarshal\<close> and the encoder of gopkg.in/yaml.v3 are parameters: \<open>unmarshal\<close>
  returns the document node or fails, \<open>encode indent doc\<close> returns the text or fails.
  The result is the file system after the call and the pair \<open>(updated, err)\<close>.
\<close>

definition updateCounterpartFile ::
  "(string \<Rightarrow> yaml_node option) \<Rightarrow> (int \<Rightarrow> yaml_node \<Rightarrow> string option) \<Rightarrow>
   filesystem \<Rightarrow> string \<Rightarrow> string \<Rightarrow> string list \<Rightarrow>
   panic + (filesystem \<times> bool \<times> go_error option)" where
  "updateCounterpartFile unmarshal encode fs path vaultPath sopsKeys =
     (case fs path of
        None \<Rightarrow> Inr (fs, False, None)
      | Some entry \<Rightarrow>
         (case readFile entry of
            None \<Rightarrow> Inr (fs, False, Some ReadingFile)
          | Some content \<Rightarrow>
             (let indent = detectIndent content in
              case unmarshal content of
                None \<Rightarrow> Inr (fs, False, Some ParsingYAML)
              | Some doc \<Rightarrow>
                 (case patchRoot vaultPath sopsKeys doc of
                    Inl p \<Rightarrow> Inl p
                  | Inr (Inl e) \<Rightarrow> Inr (fs, False, Some e)
                  | Inr (Inr doc') \<Rightarrow>
                     (case encode indent doc' of
                        None \<Rightarrow> Inr (fs, False, Some MarshalingYAML)
                      | Some out \<Rightarrow>
                         (case writeFile fs path out of
                            None \<Rightarrow> Inr (fs, False, Some WritingFile)
                          | Some fs' \<Rightarrow> Inr (fs', True, None)))))))"

text \<open>
  The block \<open>if *updateCounterpart { ... }\<close> that ends \<open>main\<close>: what it prints, and the
  exit status of the process, which is 0 on each of the three branches since \<open>main\<close>
  returns after it.
\<close>

datatype report = WarningFailedToUpdate go_error | UpdatedWithReferences nat | DoesNotExistSkipping

definition updateCounterpartStep ::
  "(string \<Rightarrow> yaml_node option) \<Rightarrow> (int \<Rightarrow> yaml_node \<Rightarrow> string option) \<Rightarrow>
   filesystem \<Rightarrow> string \<Rightarrow> string \<Rightarrow> string list \<Rightarrow>
   panic + (filesystem \<times> report \<times> nat)" where
  "updateCounterpartStep unmarshal encode fs counterpart fullVaultPath keys =
     (case updateCounterpartFile unmarshal encode fs counterpart fullVaultPath keys of
        Inl p \<Rightarrow> Inl p
      | Inr (fs', updated, err) \<Rightarrow>
         (case err of
            Some e \<Rightarrow> Inr (fs', WarningFailedToUpdate e, 0)
          | None \<Rightarrow>
             if updated then Inr (fs', UpdatedWithReferences (length keys), 0)
             else Inr (fs', DoesNotExistSkipping, 0)))"

section \<open>Flatten\<close>

text \<open>
  The values \<open>yaml.Unmarshal\<close> puts into a \<open>map[string]interface{}\<close>: strings, integers,
  booleans, floats (their 64 bits), nil, sequences and nested maps. A Go map is an
  association list with distinct keys, in the order in which \<open>range\<close> happens to visit
  it (Go leaves that order open); \<open>m[k] = v\<close> is \<open>AList.update k v m\<close>.
\<close>

datatype go_value =
    VString string | VInt int | VBool bool | VFloat nat | VNil
  | VSeq "go_value list" | VMap "(string \<times> go_value) list"

type_synonym go_map = "(string \<times> go_value) list"

fun flattenRecursive :: "go_map \<Rightarrow> string \<Rightarrow> go_map \<Rightarrow> go_map" where
  "flattenRecursive [] prefix result = result"
| "flattenRecursive ((key, val) # rest) prefix result =
     (let fullKey = (if prefix \<noteq> [] then prefix @ ''.'' @ key else key) in
      flattenRecursive rest prefix
        (case val of
           VMap v \<Rightarrow> flattenRecursive v fullKey result
         | _ \<Rightarrow> AList.update fullKey val result))"

definition Flatten :: "go_map \<Rightarrow> go_map" where
  "Flatten data = flattenRecursive data [] []"

section \<open>printDryRun\<close>

text \<open>
  What \<open>%T\<close> and \<open>%d\<close> print. \<open>len\<close> of a map or of a string is never negative, so
  \<open>%d\<close> is only needed on natural numbers; \<open>len\<close> of a string counts its bytes.
\<close>

definition typeName :: "go_value \<Rightarrow> string" where
  "typeName v = (case v of
      VString s \<Rightarrow> ''string'' | VInt i \<Rightarrow> ''int'' | VBool b \<Rightarrow> ''bool''
    | VFloat f \<Rightarrow> ''float64'' | VNil \<Rightarrow> ''<nil>''
    | VSeq xs \<Rightarrow> ''[]interface {}'' | VMap m \<Rightarrow> ''map[string]interface {}'')"

definition digitChar :: "nat \<Rightarrow> char" where
  "digitChar d = char_of (48 + d)"

fun showNat :: "nat \<Rightarrow> string" where
  "showNat n = (if n < 10 then [digitChar n] else showNat (n div 10) @ [digitChar (n mod 10)])"

declare showNat.simps [simp del]

text \<open>\<open>data[k]\<close>: the value stored under \<open>k\<close>, or nil.\<close>

definition lookup :: "go_map \<Rightarrow> string \<Rightarrow> go_value" where
  "lookup data k = (case map_of data k of None \<Rightarrow> VNil | Some v \<Rightarrow> v)"

definition dryRunLine :: "string \<Rightarrow> go_value \<Rightarrow> string" where
  "dryRunLine k v =
     (case v of
        VString val \<Rightarrow> ''  '' @ k @ '' = <string, '' @ showNat (length val) @ '' chars>'' @ [newline]
      | _ \<Rightarrow> ''  '' @ k @ '' = <'' @ typeName v @ ''>'' @ [newline])"

text \<open>
  Everything the function writes to standard output, as one string. \<open>sort.Strings\<close>
  orders the keys bytewise, as the order on \<^typ>\<open>string\<close> does.
\<close>

definition printDryRun :: "string \<Rightarrow> string \<Rightarrow> go_map \<Rightarrow> string" where
  "printDryRun path mount data =
     ''[dry-run] Would write to Vault path: '' @ mount @ ''/'' @ path @ [newline] @
     ''[dry-run] '' @ showNat (length data) @ '' secrets:'' @ [newline] @
     concat (map (\<lambda>k. dryRunLine k (lookup data k)) (sort (map fst data)))"

section \<open>What the specification expects\<close>

text \<open>
  The nested representation of a new key, in the words of the specification: a chain of
  new mappings, one for each segment of \<open>ks\<close>, each holding the single entry for its
  segment, with the reference scalar as the leaf.
\<close>

fun nestedChain :: "string list \<Rightarrow> string \<Rightarrow> yaml_node" where
  "nestedChain [] v = newScalar v"
| "nestedChain (k # ks) v = withContent newMapping [newScalar k, nestedChain ks v]"

text \<open>
  The leaves of a nested map, in the words of the specification: every value that is not
  itself a map, reached by following map values only, with the path of keys that leads to
  it. A sequence is a leaf, whatever it holds.
\<close>

fun leaves :: "go_map \<Rightarrow> (string list \<times> go_value) list" where
  "leaves [] = []"
| "leaves ((key, val) # rest) =
     (case val of
        VMap m \<Rightarrow> map (\<lambda>(p, x). (key # p, x)) (leaves m)
      | _ \<Rightarrow> [([key], val)]) @ leaves rest"

text \<open>The leaves under their dotted keys: the path's segments joined with a dot.\<close>

definition dottedLeaves :: "go_map \<Rightarrow> go_map" where
  "dottedLeaves data = map (\<lambda>(p, v). (joinDot p, v)) (leaves data)"

text \<open>
  What the dry run may show of a value: its kind and, for a string, its length.
\<close>

definition valueShape :: "go_value \<Rightarrow> string \<times> nat option" where
  "valueShape v = (typeName v, case v of VString s \<Rightarrow> Some (length s) | _ \<Rightarrow> None)"

text \<open>
  A tree as the YAML parser builds it: the content of every mapping node is a sequence of
  key and value pairs, so its length is even.
\<close>

fun wellFormed :: "yaml_node \<Rightarrow> bool" where
  "wellFormed (Node k s t v a cs) =
     ((k = MappingNode \<longrightarrow> even (length cs)) \<and> (\<forall>c \<in> set cs. wellFormed c))"

text \<open>
  The mapping reached from \<open>n\<close> by following the keys of \<open>path\<close> through mapping values,
  and the statement that this mapping has the key \<open>k\<close> at position \<open>i\<close> of its content.
\<close>

fun mappingAt :: "yaml_node \<Rightarrow> string list \<Rightarrow> yaml_node option" where
  "mappingAt n [] = (if Kind n = MappingNode then Some n else None)"
| "mappingAt n (k # ks) =
     (if Kind n = MappingNode then
        (case findKey k (Content n) of
           Some i \<Rightarrow> if i + 1 < length (Content n) then mappingAt (Content n ! (i + 1)) ks else None
         | None \<Rightarrow> None)
      else None)"

definition entryAt :: "yaml_node \<Rightarrow> string list \<Rightarrow> nat \<Rightarrow> string \<Rightarrow> bool" where
  "entryAt root path i k =
     (case mappingAt root path of
        Some m \<Rightarrow> even i \<and> i < length (Content m) \<and> Value (Content m ! i) = k
      | None \<Rightarrow> False)"

text \<open>
  The key under which the code stores the leaf at path \<open>p\<close> when it starts from \<open>prefix\<close>.
  An empty prefix stands for "top level" in the code, so an empty first key is not
  followed by a dot.
\<close>

definition fullKey :: "string \<Rightarrow> string \<Rightarrow> string" where
  "fullKey prefix key = (if prefix \<noteq> [] then prefix @ ''.'' @ key else key)"

fun codeKey :: "string \<Rightarrow> string list \<Rightarrow> string" where
  "codeKey prefix [] = prefix"
| "codeKey prefix (k # p) = codeKey (fullKey prefix k) p"

lemma size_nth_Content: "i < length (Content n) \<Longrightarrow> size (Content n ! i) < size n"
proof -
  assume "i < length (Content n)"
  then have "Content n ! i \<in> set (Content n)" by simp
  then have "size (Content n ! i) \<le> size_list size (Content n)"
    by (rule size_list_estimation') simp
  then show ?thesis by (cases n) simp
qed

text \<open>
  What a patch may do to a node, in the words of the amended claim C5. \<open>keeps n n'\<close>:
  \<open>n'\<close> is \<open>n\<close>; or \<open>n\<close> was overwritten in place by a scalar (which discards whatever
  was under \<open>n\<close>); or \<open>n\<close> is a mapping, \<open>n'\<close> is the same node with a content at least as
  long, every key node of \<open>n\<close> is unchanged at its position and every value of \<open>n\<close> is kept,
  in this same sense, at its position.
\<close>

function keeps :: "yaml_node \<Rightarrow> yaml_node \<Rightarrow> bool" where
  "keeps n n' =
     (n' = n \<or> n' = setScalar (Value n') n \<or>
      (Kind n = MappingNode \<and> n' = withContent n (Content n') \<and>
       length (Content n) \<le> length (Content n') \<and>
       (\<forall>i<length (Content n).
          if even i then Content n' ! i = Content n ! i
          else keeps (Content n ! i) (Content n' ! i))))"
  by pat_completeness auto
termination
  by (relation "measure (\<lambda>(n, n'). size n)") (auto simp: size_nth_Content)

declare keeps.simps [simp del]

section \<open>Properties of Split and Join\<close>


lemma split_no_sep: "sep \<notin> set l \<Longrightarrow> split sep l = [l]"
  by (induction l) auto




lemma join_Cons: "p \<noteq> [] \<Longrightarrow> join sep (k # p) = k @ sep @ join sep p"
  by (cases p) simp_all




section \<open>Properties of one step of the patcher\<close>

lemma upsert_flat_match:
  "Kind node = MappingNode \<Longrightarrow> keyPath \<noteq> [] \<Longrightarrow>
   findKey (joinDot keyPath) (Content node) = Some i \<Longrightarrow>
   upsertNestedKey node keyPath v = overwriteAt i v node"
  by (cases keyPath) simp_all

lemma addNestedKey_chain:
  "addNestedKey node (k # ks) v = withContent node (Content node @ [newScalar k, nestedChain ks v])"
  by (induction ks arbitrary: node k) (simp_all add: newMapping_def withContent_def)

lemma hasFlatKeysList_iff:
  "hasFlatKeysList cs \<longleftrightarrow> (\<exists>j<length cs. even j \<and> CHR ''.'' \<in> set (Value (cs ! j)))"
proof (induction cs rule: hasFlatKeysList.induct)
  case 1
  then show ?case by simp
next
  case (2 kn)
  then show ?case by (simp add: contains_def)
next
  case (3 kn vn rest)
  show ?case (is "?L = ?R")
  proof
    assume ?L
    then consider "CHR ''.'' \<in> set (Value kn)" | "hasFlatKeysList rest"
      by (auto simp: contains_def)
    then show ?R
    proof cases
      case 1
      then show ?thesis by (intro exI[of _ 0]) simp
    next
      case 2
      with 3 obtain j where "j < length rest" "even j" "CHR ''.'' \<in> set (Value (rest ! j))"
        by blast
      then show ?thesis by (intro exI[of _ "j + 2"]) simp
    qed
  next
    assume ?R
    then obtain j where j: "j < length (kn # vn # rest)" "even j"
      "CHR ''.'' \<in> set (Value ((kn # vn # rest) ! j))" by blast
    show ?L
    proof (cases j)
      case 0
      with j show ?thesis by (simp add: contains_def)
    next
      case (Suc m)
      with j obtain n where n: "j = n + 2" by (cases m) auto
      with j have "n < length rest" "even n" "CHR ''.'' \<in> set (Value (rest ! n))" by auto
      with 3 show ?thesis by auto
    qed
  qed
qed

subsection \<open>Rule 1: exact flat match\<close>



subsection \<open>Rule 3: a new key follows the style of its siblings\<close>

text \<open>
  C2. New-key representation. When neither the joined remaining path nor its first segment
  is a key of the current mapping, exactly one entry is appended: if some key of the
  mapping contains a dot, the entry's key is the joined remaining path and its value the
  reference scalar; otherwise the entry's key is the first segment and its value the chain
  of new mappings for the other segments, ending in the reference scalar.
\<close>

theorem new_key_follows_sibling_style:
  assumes "Kind node = MappingNode"
    and "findKey (joinDot (k # ks)) (Content node) = None"
    and "findKey k (Content node) = None"
  shows "upsertNestedKey node (k # ks) v =
         Inr (withContent node
               (Content node @
                 (if \<exists>j<length (Content node). even j \<and> CHR ''.'' \<in> set (Value (Content node ! j))
                  then [newScalar (joinDot (k # ks)), newScalar v]
                  else [newScalar k, nestedChain ks v])))"
  using assms by (auto simp: hasFlatKeys_def hasFlatKeysList_iff addNestedKey_chain)

theorem new_key_follows_sibling_style_witness:
  "upsertKeys ''secret/app'' (Node MappingNode 0 [] [] [] [newScalar ''existing.key'', newScalar ''v''])
     [''new.key'']
   = Inr (Node MappingNode 0 [] [] []
        [newScalar ''existing.key'', newScalar ''v'',
         newScalar ''new.key'', newScalar ''ref+vault://secret/app/new.key#value''])
   \<and> upsertKeys ''secret/app'' (Node MappingNode 0 [] [] [] [newScalar ''existing'', newScalar ''v''])
     [''new.key'']
   = Inr (Node MappingNode 0 [] [] []
        [newScalar ''existing'', newScalar ''v'',
         newScalar ''new'',
         Node MappingNode 0 [] [] []
           [newScalar ''key'', newScalar ''ref+vault://secret/app/new.key#value'']])"
proof -
  let ?flat = "Node MappingNode 0 [] [] [] [newScalar ''existing.key'', newScalar ''v'']"
  let ?nested = "Node MappingNode 0 [] [] [] [newScalar ''existing'', newScalar ''v'']"
  let ?ref = "vaultRef ''secret/app'' ''new.key''"
  have dotted: "\<exists>j<length (Content ?flat). even j \<and> CHR ''.'' \<in> set (Value (Content ?flat ! j))"
    by (intro exI[of _ 0]) (simp add: newScalar_def)
  have plain: "\<not> (\<exists>j<length (Content ?nested). even j \<and> CHR ''.'' \<in> set (Value (Content ?nested ! j)))"
    by (subst hasFlatKeysList_iff [symmetric]) (simp add: newScalar_def contains_def)
  have "upsertNestedKey ?flat [''new'', ''key''] ?ref =
        Inr (withContent ?flat (Content ?flat @ [newScalar (joinDot [''new'', ''key'']), newScalar ?ref]))"
    using new_key_follows_sibling_style [of ?flat "''new''" "[''key'']" ?ref] dotted
    by (simp only: if_P) (simp add: newScalar_def)
  moreover have "upsertNestedKey ?nested [''new'', ''key''] ?ref =
        Inr (withContent ?nested (Content ?nested @ [newScalar ''new'', nestedChain [''key''] ?ref]))"
    using new_key_follows_sibling_style [of ?nested "''new''" "[''key'']" ?ref] plain
    by (simp only: if_not_P) (simp add: newScalar_def)
  ultimately show ?thesis
    by (simp add: upsertKey_def newScalar_def newMapping_def vaultRef_def withContent_def)
qed

subsection \<open>Rule 2, abort branch\<close>



subsection \<open>Overwriting discards the old value\<close>

text \<open>
  C10. When the entry hit by the exact-flat-match rule, or by the first-segment rule on
  the key's last segment, has a mapping as its value, the patch returns normally and that
  value is replaced by a single scalar node: kind scalar, tag empty, no children, the
  reference as value. The whole subtree under the old value is gone.
\<close>

theorem overwrite_destroys_subtree:
  assumes "Kind node = MappingNode"
    and "keyPath \<noteq> []"
    and "findKey (joinDot keyPath) (Content node) = Some i
         \<or> (length keyPath = 1 \<and> findKey (hd keyPath) (Content node) = Some i)"
    and "i + 1 < length (Content node)"
    and "Kind (Content node ! (i + 1)) = MappingNode"
  shows "upsertNestedKey node keyPath v =
         Inr (withContent node
               ((Content node)[i + 1 :=
                  Node ScalarNode (Style (Content node ! (i + 1))) [] v
                       (Anchor (Content node ! (i + 1))) []]))"
proof -
  have "findKey (joinDot keyPath) (Content node) = Some i"
    using assms(2,3) by (cases keyPath) auto
  then show ?thesis
    using assms by (simp add: upsert_flat_match overwriteAt_def setScalar_def)
qed

theorem overwrite_destroys_subtree_witness:
  "upsertKeys ''secret/app''
     (Node MappingNode 0 [] [] []
        [newScalar ''a'', Node MappingNode 0 ''!!map'' [] [] [newScalar ''b'', newScalar ''1'']])
     [''a'']
   = Inr (Node MappingNode 0 [] [] []
        [newScalar ''a'', Node ScalarNode 0 [] ''ref+vault://secret/app/a#value'' [] []])"
  using overwrite_destroys_subtree [of
      "Node MappingNode 0 [] [] []
        [newScalar ''a'', Node MappingNode 0 ''!!map'' [] [] [newScalar ''b'', newScalar ''1'']]"
      "[''a'']" 0 "vaultRef ''secret/app'' ''a''"]
  by (simp add: upsertKey_def newScalar_def vaultRef_def withContent_def)

section \<open>The whole patch: what survives\<close>

lemma findKey_Some: "findKey k cs = Some i \<Longrightarrow> even i \<and> i < length cs \<and> Value (cs ! i) = k"
  by (induction k cs arbitrary: i rule: findKey.induct) (auto split: if_splits)

lemma keeps_refl: "keeps n n"
  by (subst keeps.simps) simp

lemma keeps_setScalar: "keeps n (setScalar v n)"
  by (subst keeps.simps) (simp add: setScalar_def)

lemma keeps_mappingI:
  assumes "Kind n = MappingNode"
    and "length (Content n) \<le> length cs"
    and "\<And>j. j < length (Content n) \<Longrightarrow> even j \<Longrightarrow> cs ! j = Content n ! j"
    and "\<And>j. j < length (Content n) \<Longrightarrow> odd j \<Longrightarrow> keeps (Content n ! j) (cs ! j)"
  shows "keeps n (withContent n cs)"
  using assms by (subst keeps.simps) (auto simp: withContent_def)

lemma keeps_update:
  assumes "Kind n = MappingNode" "even i" "Suc i < length (Content n)"
    and "keeps (Content n ! (Suc i)) c"
  shows "keeps n (withContent n ((Content n)[Suc i := c]))"
proof (rule keeps_mappingI)
  show "Kind n = MappingNode" by fact
  show "length (Content n) \<le> length ((Content n)[Suc i := c])" by simp
next
  fix j assume "j < length (Content n)" "even j"
  with assms(2) have "j \<noteq> Suc i" by auto
  then show "(Content n)[Suc i := c] ! j = Content n ! j" by simp
next
  fix j assume j: "j < length (Content n)" "odd j"
  show "keeps (Content n ! j) ((Content n)[Suc i := c] ! j)"
  proof (cases "j = Suc i")
    case True
    with assms(3,4) show ?thesis by simp
  next
    case False
    then show ?thesis by (simp add: keeps_refl)
  qed
qed

lemma keeps_append:
  assumes "Kind n = MappingNode"
  shows "keeps n (withContent n (Content n @ xs))"
  using assms by (intro keeps_mappingI) (simp_all add: nth_append keeps_refl)

lemma overwriteAt_keeps:
  assumes "Kind n = MappingNode" "even i" "overwriteAt i v n = Inr n'"
  shows "keeps n n'"
proof -
  from assms(3) have lt: "i + 1 < length (Content n)"
    and n': "n' = withContent n ((Content n)[i + 1 := setScalar v (Content n ! (i + 1))])"
    by (auto simp: overwriteAt_def split: if_splits)
  show ?thesis
    unfolding n' using assms(1,2) lt by (simp add: keeps_update keeps_setScalar)
qed

lemma upsertNestedKey_keeps: "upsertNestedKey node keyPath v = Inr node' \<Longrightarrow> keeps node node'"
proof (induction node keyPath v arbitrary: node' rule: upsertNestedKey.induct)
  case (1 node v)
  then show ?case by (simp add: keeps_refl)
next
  case step: (2 node k ks v)
  show ?case
  proof (cases "Kind node = MappingNode")
    case False
    with step.prems show ?thesis by (simp add: keeps_refl)
  next
    case mapping: True
    show ?thesis
    proof (cases "findKey (joinDot (k # ks)) (Content node)")
      case (Some i)
      with mapping step.prems have "overwriteAt i v node = Inr node'" by simp
      moreover from Some have "even i" by (simp add: findKey_Some)
      ultimately show ?thesis using mapping by (simp add: overwriteAt_keeps)
    next
      case flat: None
      show ?thesis
      proof (cases "findKey k (Content node)")
        case None
        with flat mapping step.prems
        have "node' = withContent node
                  (Content node @ [newScalar (joinDot (k # ks)), newScalar v])
              \<or> node' = withContent node (Content node @ [newScalar k, nestedChain ks v])"
          by (auto simp: addNestedKey_chain split: if_splits)
        with mapping show ?thesis by (auto simp: keeps_append)
      next
        case (Some i)
        then have ev: "even i" by (simp add: findKey_Some)
        show ?thesis
        proof (cases "ks = []")
          case True
          with Some flat mapping step.prems have "overwriteAt i v node = Inr node'" by simp
          with ev mapping show ?thesis by (simp add: overwriteAt_keeps)
        next
          case False
          show ?thesis
          proof (cases "i + 1 < length (Content node) \<and> Kind (Content node ! (i + 1)) = MappingNode")
            case True
            with Some flat mapping False step.prems obtain c
              where c: "upsertNestedKey (Content node ! (i + 1)) ks v = Inr c"
                and n': "node' = withContent node ((Content node)[i + 1 := c])"
              by (auto split: sum.splits)
            from c have "keeps (Content node ! (i + 1)) c"
              using step.IH [OF _ flat Some False] mapping True by simp
            with mapping ev True n' show ?thesis by (simp add: keeps_update)
          next
            case False
            with Some flat mapping \<open>ks \<noteq> []\<close> step.prems show ?thesis
              by (auto simp: keeps_refl split: if_splits)
          qed
        qed
      qed
    qed
  qed
qed

lemma setScalar_setScalar: "setScalar v (setScalar w n) = setScalar v n"
  by (simp add: setScalar_def)

lemma setScalar_withContent: "setScalar v (withContent n cs) = setScalar v n"
  by (simp add: setScalar_def withContent_def)

lemma withContent_withContent: "withContent (withContent n cs) cs' = withContent n cs'"
  by (simp add: withContent_def)

lemma withContent_self: "withContent n (Content n) = n"
  by (cases n) (simp add: withContent_def)

lemma Content_withContent: "Content (withContent n cs) = cs"
  by (simp add: withContent_def)

lemma Kind_withContent: "Kind (withContent n cs) = Kind n"
  by (simp add: withContent_def)

lemma Kind_setScalar: "Kind (setScalar v n) = ScalarNode"
  by (simp add: setScalar_def)

lemma keeps_cases:
  assumes "keeps n n'"
  obtains (same) "n' = n"
  | (overwritten) "n' = setScalar (Value n') n"
  | (patched) "Kind n = MappingNode" "n' = withContent n (Content n')"
      "length (Content n) \<le> length (Content n')"
      "\<And>i. i < length (Content n) \<Longrightarrow> even i \<Longrightarrow> Content n' ! i = Content n ! i"
      "\<And>i. i < length (Content n) \<Longrightarrow> odd i \<Longrightarrow> keeps (Content n ! i) (Content n' ! i)"
  using assms by (subst (asm) keeps.simps) (auto split: if_splits)

lemma keeps_trans: "keeps a b \<Longrightarrow> keeps b c \<Longrightarrow> keeps a c"
proof (induction a arbitrary: b c)
  case (Node k s t v an cs)
  let ?a = "Node k s t v an cs"
  from Node.prems(1) show ?case
  proof (cases rule: keeps_cases)
    case same
    with Node.prems(2) show ?thesis by simp
  next
    case overwritten
    from Node.prems(2) show ?thesis
    proof (cases rule: keeps_cases)
      case same
      with Node.prems(1) show ?thesis by simp
    next
      case ow2: overwritten
      with overwritten have "c = setScalar (Value c) ?a"
        by (metis setScalar_setScalar)
      then show ?thesis by (subst keeps.simps) simp
    next
      case patched
      have "Kind b = ScalarNode" by (subst overwritten) (rule Kind_setScalar)
      with patched(1) show ?thesis by simp
    qed
  next
    case ab: patched
    from Node.prems(2) show ?thesis
    proof (cases rule: keeps_cases)
      case same
      with Node.prems(1) show ?thesis by simp
    next
      case overwritten
      with ab(2) have "c = setScalar (Value c) ?a"
        by (metis setScalar_withContent)
      then show ?thesis by (subst keeps.simps) simp
    next
      case bc: patched
      have c: "c = withContent ?a (Content c)"
        using ab(2) bc(2) by (metis withContent_withContent)
      have "keeps ?a (withContent ?a (Content c))"
      proof (rule keeps_mappingI)
        show "Kind ?a = MappingNode" by (rule ab(1))
        show "length (Content ?a) \<le> length (Content c)" using ab(3) bc(3) by simp
      next
        fix j assume j: "j < length (Content ?a)" "even j"
        with ab(3) have "j < length (Content b)" by simp
        with j ab(4) bc(4) show "Content c ! j = Content ?a ! j" by simp
      next
        fix j assume j: "j < length (Content ?a)" "odd j"
        with ab(3) have jb: "j < length (Content b)" by simp
        from j have "Content ?a ! j \<in> set cs" by simp
        moreover from j ab(5) have "keeps (Content ?a ! j) (Content b ! j)" by simp
        moreover from jb j bc(5) have "keeps (Content b ! j) (Content c ! j)" by simp
        ultimately show "keeps (Content ?a ! j) (Content c ! j)" by (rule Node.IH)
      qed
      with c show ?thesis by simp
    qed
  qed
qed

lemma upsertNestedKey_shape:
  "upsertNestedKey node keyPath v = Inr node' \<Longrightarrow>
   node' = withContent node (Content node') \<and> length (Content node) \<le> length (Content node')"
  by (cases keyPath)
     (auto simp: overwriteAt_def Content_withContent withContent_withContent withContent_self
                 addNestedKey_chain
           split: if_splits option.splits sum.splits)

lemma upsertKeys_shape:
  "upsertKeys vaultPath root keys = Inr root' \<Longrightarrow>
   root' = withContent root (Content root') \<and> length (Content root) \<le> length (Content root')"
proof (induction keys arbitrary: root)
  case Nil
  then show ?case by (simp add: withContent_self)
next
  case (Cons key keys)
  then obtain r where r: "upsertKey vaultPath root key = Inr r"
    and rest: "upsertKeys vaultPath r keys = Inr root'"
    by (auto split: sum.splits)
  from r have "r = withContent root (Content r) \<and> length (Content root) \<le> length (Content r)"
    unfolding upsertKey_def by (rule upsertNestedKey_shape)
  moreover from rest have "root' = withContent r (Content root') \<and> length (Content r) \<le> length (Content root')"
    by (rule Cons.IH)
  ultimately show ?case by (metis withContent_withContent le_trans)
qed

lemma upsertKeys_keeps: "upsertKeys vaultPath root keys = Inr root' \<Longrightarrow> keeps root root'"
proof (induction keys arbitrary: root)
  case Nil
  then show ?case by (simp add: keeps_refl)
next
  case (Cons key keys)
  then obtain r where r: "upsertKey vaultPath root key = Inr r"
    and rest: "upsertKeys vaultPath r keys = Inr root'"
    by (auto split: sum.splits)
  from r have "keeps root r" unfolding upsertKey_def by (rule upsertNestedKey_keeps)
  moreover from rest have "keeps r root'" by (rule Cons.IH)
  ultimately show ?case by (rule keeps_trans)
qed

lemma wellFormed_Content:
  "wellFormed n \<Longrightarrow> i < length (Content n) \<Longrightarrow> wellFormed (Content n ! i)"
  by (cases n) simp

lemma wellFormed_even: "wellFormed n \<Longrightarrow> Kind n = MappingNode \<Longrightarrow> even (length (Content n))"
  by (cases n) simp

lemma findKey_value_index:
  "findKey k cs = Some i \<Longrightarrow> even (length cs) \<Longrightarrow> i + 1 < length cs"
proof -
  assume a: "findKey k cs = Some i" "even (length cs)"
  then have "even i" "i < length cs" by (simp_all add: findKey_Some)
  with a(2) show ?thesis by (metis Suc_eq_plus1 Suc_lessI even_Suc)
qed

lemma upsertNestedKey_total:
  "wellFormed node \<Longrightarrow> \<exists>m. upsertNestedKey node keyPath v = Inr m"
proof (induction node keyPath v rule: upsertNestedKey.induct)
  case (1 node v)
  then show ?case by simp
next
  case step: (2 node k ks v)
  show ?case
  proof (cases "Kind node = MappingNode")
    case False
    then show ?thesis by simp
  next
    case mapping: True
    with step.prems have ev: "even (length (Content node))" by (simp add: wellFormed_even)
    show ?thesis
    proof (cases "findKey (joinDot (k # ks)) (Content node)")
      case (Some i)
      then have "i + 1 < length (Content node)" using ev by (rule findKey_value_index)
      with Some mapping show ?thesis by (simp add: overwriteAt_def)
    next
      case flat: None
      show ?thesis
      proof (cases "findKey k (Content node)")
        case None
        with flat mapping show ?thesis by simp
      next
        case (Some i)
        then have lt: "i + 1 < length (Content node)" using ev by (rule findKey_value_index)
        show ?thesis
        proof (cases "ks \<noteq> [] \<and> Kind (Content node ! (i + 1)) = MappingNode")
          case True
          from step.prems lt have "wellFormed (Content node ! (i + 1))"
            by (rule wellFormed_Content)
          then obtain m where "upsertNestedKey (Content node ! (i + 1)) ks v = Inr m"
            using step.IH [OF _ flat Some] mapping True lt by auto
          with Some flat mapping True lt show ?thesis by simp
        next
          case False
          with Some flat mapping lt show ?thesis by (auto simp: overwriteAt_def)
        qed
      qed
    qed
  qed
qed

lemma wellFormed_newScalar: "wellFormed (newScalar v)"
  by (simp add: newScalar_def)

lemma wellFormed_nestedChain: "wellFormed (nestedChain ks v)"
  by (induction ks) (simp_all add: wellFormed_newScalar withContent_def newMapping_def)



lemma wellFormed_withContent:
  "wellFormed (withContent n cs) \<longleftrightarrow>
     (Kind n = MappingNode \<longrightarrow> even (length cs)) \<and> (\<forall>c \<in> set cs. wellFormed c)"
  by (simp add: withContent_def)

lemma wellFormed_children: "wellFormed n \<Longrightarrow> c \<in> set (Content n) \<Longrightarrow> wellFormed c"
  by (cases n) simp

lemma wellFormed_setScalar: "wellFormed (setScalar v n)"
  by (simp add: setScalar_def)

lemma wellFormed_update:
  assumes "wellFormed n" "wellFormed c"
  shows "wellFormed (withContent n ((Content n)[i := c]))"
proof -
  have "\<forall>x \<in> set ((Content n)[i := c]). wellFormed x"
    using assms set_update_subset_insert [of "Content n" i c]
    by (auto dest: wellFormed_children)
  moreover have "Kind n = MappingNode \<longrightarrow> even (length ((Content n)[i := c]))"
    using assms(1) by (simp add: wellFormed_even)
  ultimately show ?thesis by (simp add: wellFormed_withContent)
qed

lemma wellFormed_append_pair:
  assumes "wellFormed n" "wellFormed a" "wellFormed b"
  shows "wellFormed (withContent n (Content n @ [a, b]))"
  using assms by (auto simp: wellFormed_withContent wellFormed_even dest: wellFormed_children)

lemma upsertNestedKey_wellFormed:
  "wellFormed node \<Longrightarrow> upsertNestedKey node keyPath v = Inr node' \<Longrightarrow> wellFormed node'"
proof (induction node keyPath v arbitrary: node' rule: upsertNestedKey.induct)
  case (1 node v)
  then show ?case by simp
next
  case step: (2 node k ks v)
  show ?case
  proof (cases "Kind node = MappingNode")
    case False
    with step.prems show ?thesis by simp
  next
    case mapping: True
    have ow: "wellFormed n'" if "overwriteAt i v node = Inr n'" for i n'
      using that step.prems(1)
      by (auto simp: overwriteAt_def wellFormed_update wellFormed_setScalar split: if_splits)
    show ?thesis
    proof (cases "findKey (joinDot (k # ks)) (Content node)")
      case (Some i)
      with mapping step.prems show ?thesis by (simp add: ow)
    next
      case flat: None
      show ?thesis
      proof (cases "findKey k (Content node)")
        case None
        with flat mapping step.prems
        have "node' = withContent node
                  (Content node @ [newScalar (joinDot (k # ks)), newScalar v])
              \<or> node' = withContent node (Content node @ [newScalar k, nestedChain ks v])"
          by (auto simp: addNestedKey_chain split: if_splits)
        with step.prems(1) show ?thesis
          by (auto simp: wellFormed_append_pair wellFormed_newScalar wellFormed_nestedChain)
      next
        case (Some i)
        show ?thesis
        proof (cases "ks = []")
          case True
          with Some flat mapping step.prems show ?thesis by (simp add: ow)
        next
          case False
          show ?thesis
          proof (cases "i + 1 < length (Content node) \<and> Kind (Content node ! (i + 1)) = MappingNode")
            case True
            with Some flat mapping False step.prems obtain c
              where c: "upsertNestedKey (Content node ! (i + 1)) ks v = Inr c"
                and n': "node' = withContent node ((Content node)[i + 1 := c])"
              by (auto split: sum.splits)
            from step.prems(1) True have "wellFormed (Content node ! (i + 1))"
              by (simp add: wellFormed_Content)
            then have "wellFormed c"
              using step.IH [OF _ flat Some False] mapping True c by simp
            with step.prems(1) n' show ?thesis by (simp add: wellFormed_update)
          next
            case False
            with Some flat mapping \<open>ks \<noteq> []\<close> step.prems show ?thesis
              by (auto split: if_splits)
          qed
        qed
      qed
    qed
  qed
qed

lemma upsertKeys_total:
  "wellFormed root \<Longrightarrow> \<exists>root'. upsertKeys vaultPath root keys = Inr root'"
proof (induction keys arbitrary: root)
  case Nil
  then show ?case by simp
next
  case (Cons key keys)
  from Cons.prems obtain r where r: "upsertKey vaultPath root key = Inr r"
    unfolding upsertKey_def using upsertNestedKey_total by blast
  with Cons.prems have "wellFormed r"
    unfolding upsertKey_def by (rule upsertNestedKey_wellFormed)
  then obtain root' where "upsertKeys vaultPath r keys = Inr root'"
    using Cons.IH by blast
  with r show ?case by simp
qed

text \<open>
  C5 (as amended). A patch of a mapping tree that the parser built returns normally. Every
  key of the root mapping, and of every nested mapping that is not under an overwritten
  value, is afterwards the same node at the same position: values are overwritten in place
  (which discards the old value with everything under it), patched in place, or left
  alone, and new entries are appended at the end; nothing is removed from, renamed in or
  reordered within a mapping that is still there.
\<close>

theorem patch_keeps_entries_not_overwritten:
  assumes "Kind root = MappingNode"
  shows "(wellFormed root \<longrightarrow> (\<exists>root'. upsertKeys vaultPath root keys = Inr root'))
       \<and> (\<forall>root'. upsertKeys vaultPath root keys = Inr root' \<longrightarrow>
             keeps root root'
           \<and> Kind root' = MappingNode
           \<and> length (Content root) \<le> length (Content root')
           \<and> (\<forall>i<length (Content root). even i \<longrightarrow> Content root' ! i = Content root ! i))"
proof (intro conjI impI allI)
  assume "wellFormed root"
  then show "\<exists>root'. upsertKeys vaultPath root keys = Inr root'" by (rule upsertKeys_total)
next
  fix root' assume run: "upsertKeys vaultPath root keys = Inr root'"
  from run show k: "keeps root root'" by (rule upsertKeys_keeps)
  from run have sh: "root' = withContent root (Content root')"
    and len: "length (Content root) \<le> length (Content root')"
    using upsertKeys_shape by blast+
  from len show "length (Content root) \<le> length (Content root')" .
  from sh assms show kind: "Kind root' = MappingNode"
    by (metis Kind_withContent)
  fix i assume i: "i < length (Content root)" "even i"
  from k show "Content root' ! i = Content root ! i"
  proof (cases rule: keeps_cases)
    case same
    then show ?thesis by simp
  next
    case overwritten
    have "Kind root' = ScalarNode" by (subst overwritten) (rule Kind_setScalar)
    with kind show ?thesis by simp
  next
    case patched
    with i show ?thesis by simp
  qed
qed

theorem patch_keeps_entries_not_overwritten_witness:
  "(\<exists>root'. upsertKeys ''secret/app''
       (Node MappingNode 0 [] [] []
          [newScalar ''admin'',
           Node MappingNode 0 [] [] [] [newScalar ''clientID'', newScalar ''placeholder''],
           newScalar ''existing'', newScalar ''v''])
       [''admin.clientID'', ''new.key''] = Inr root')
   \<and> keeps
     (Node MappingNode 0 [] [] []
        [newScalar ''admin'',
         Node MappingNode 0 [] [] [] [newScalar ''clientID'', newScalar ''placeholder''],
         newScalar ''existing'', newScalar ''v''])
     (Node MappingNode 0 [] [] []
        [newScalar ''admin'',
         Node MappingNode 0 [] [] []
           [newScalar ''clientID'', newScalar ''ref+vault://secret/app/admin.clientID#value''],
         newScalar ''existing'', newScalar ''v'',
         newScalar ''new'',
         Node MappingNode 0 [] [] []
           [newScalar ''key'', newScalar ''ref+vault://secret/app/new.key#value'']])"
proof -
  let ?root = "Node MappingNode 0 [] [] []
        [newScalar ''admin'',
         Node MappingNode 0 [] [] [] [newScalar ''clientID'', newScalar ''placeholder''],
         newScalar ''existing'', newScalar ''v'']"
  let ?root' = "Node MappingNode 0 [] [] []
        [newScalar ''admin'',
         Node MappingNode 0 [] [] []
           [newScalar ''clientID'', newScalar ''ref+vault://secret/app/admin.clientID#value''],
         newScalar ''existing'', newScalar ''v'',
         newScalar ''new'',
         Node MappingNode 0 [] [] []
           [newScalar ''key'', newScalar ''ref+vault://secret/app/new.key#value'']]"
  have kind: "Kind ?root = MappingNode" by simp
  have wf: "wellFormed ?root" by (simp add: newScalar_def)
  have run: "upsertKeys ''secret/app'' ?root [''admin.clientID'', ''new.key''] = Inr ?root'"
    by (simp add: upsertKey_def hasFlatKeys_def contains_def newScalar_def newMapping_def
                  withContent_def vaultRef_def overwriteAt_def setScalar_def)
  note t = patch_keeps_entries_not_overwritten
             [OF kind, of "''secret/app''" "[''admin.clientID'', ''new.key'']"]
  from t wf have "\<exists>root'. upsertKeys ''secret/app'' ?root [''admin.clientID'', ''new.key''] = Inr root'"
    by blast
  moreover from t run have "keeps ?root ?root'" by blast
  ultimately show ?thesis by (rule conjI)
qed

text \<open>
  The claim as first stated speaks of every key of any mapping. Patching the key \<open>a\<close> of
  \<open>{a: {b: 1}}\<close> overwrites the value of \<open>a\<close>: before, the mapping under \<open>a\<close> has the key
  \<open>b\<close> at position 0; afterwards there is no such mapping.
\<close>

theorem overwrite_drops_nested_entries:
  "entryAt
     (Node MappingNode 0 [] [] []
        [newScalar ''a'', Node MappingNode 0 [] [] [] [newScalar ''b'', newScalar ''1'']])
     [''a''] 0 ''b''
   \<and> upsertKeys ''secret/app''
       (Node MappingNode 0 [] [] []
          [newScalar ''a'', Node MappingNode 0 [] [] [] [newScalar ''b'', newScalar ''1'']])
       [''a'']
     = Inr (Node MappingNode 0 [] [] []
          [newScalar ''a'', newScalar ''ref+vault://secret/app/a#value''])
   \<and> \<not> entryAt
       (Node MappingNode 0 [] [] []
          [newScalar ''a'', newScalar ''ref+vault://secret/app/a#value''])
       [''a''] 0 ''b''"
  by (simp add: entryAt_def upsertKey_def newScalar_def withContent_def vaultRef_def
                overwriteAt_def setScalar_def)

section \<open>The whole patch: order and visibility\<close>

text \<open>The loop is sequential: the keys after the first are applied to what the first left.\<close>

lemma upsertKeys_append:
  "upsertKeys vaultPath root (keys1 @ keys2) =
     (case upsertKeys vaultPath root keys1 of
        Inl e \<Rightarrow> Inl e
      | Inr root' \<Rightarrow> upsertKeys vaultPath root' keys2)"
  by (induction keys1 arbitrary: root) (auto split: sum.splits)





section \<open>Indentation\<close>








section \<open>A missing companion file\<close>

text \<open>
  C9. For every key list, when the path names no file, updateCounterpartFile returns
  \<open>(false, nil)\<close> without a panic and the file system is what it was (nothing written,
  nothing created); the caller prints that the file does not exist and the process still
  ends with status 0.
\<close>

theorem missing_counterpart_is_noop:
  assumes "fs path = None"
  shows "updateCounterpartFile unmarshal encode fs path vaultPath sopsKeys = Inr (fs, False, None)
         \<and> updateCounterpartStep unmarshal encode fs path vaultPath sopsKeys
             = Inr (fs, DoesNotExistSkipping, 0)"
  using assms by (simp add: updateCounterpartFile_def updateCounterpartStep_def)

theorem missing_counterpart_is_noop_witness:
  "updateCounterpartFile (\<lambda>text. None) (\<lambda>indent doc. None)
       [''other.yaml'' \<mapsto> RegularFile ''a: 1''] ''app.yaml'' ''secret/test'' [''key'']
     = Inr ([''other.yaml'' \<mapsto> RegularFile ''a: 1''], False, None)
   \<and> updateCounterpartStep (\<lambda>text. None) (\<lambda>indent doc. None)
       [''other.yaml'' \<mapsto> RegularFile ''a: 1''] ''app.yaml'' ''secret/test'' [''key'']
     = Inr ([''other.yaml'' \<mapsto> RegularFile ''a: 1''], DoesNotExistSkipping, 0)"
  using missing_counterpart_is_noop
    [of "[''other.yaml'' \<mapsto> RegularFile ''a: 1'']" "''app.yaml''"
        "\<lambda>text. None" "\<lambda>indent doc. None" "''secret/test''" "[''key'']"]
  by simp

section \<open>Flatten\<close>

lemma flattenRecursive_fold:
  "flattenRecursive data prefix result =
     fold (\<lambda>(p, v). AList.update (codeKey prefix p) v) (leaves data) result"
proof (induction data prefix result rule: flattenRecursive.induct)
  case (1 prefix result)
  then show ?case by simp
next
  case (2 key val rest prefix result)
  have comp: "(\<lambda>(p, v). AList.update (codeKey prefix p) v) \<circ> (\<lambda>(p, x). (key # p, x))
      = (\<lambda>(p, v). AList.update (codeKey (fullKey prefix key) p) v)"
    by (auto simp: fun_eq_iff)
  show ?case
  proof (cases val)
    case (VMap m)
    with 2 show ?thesis
      by (simp add: fold_map comp fullKey_def [symmetric])
  qed (use 2 in \<open>simp_all add: fullKey_def\<close>)
qed

lemma codeKey_nonempty:
  "prefix \<noteq> [] \<Longrightarrow> p \<noteq> [] \<Longrightarrow> codeKey prefix p = prefix @ ''.'' @ joinDot p"
proof (induction p arbitrary: prefix)
  case Nil
  then show ?case by simp
next
  case (Cons k p)
  show ?case
  proof (cases "p = []")
    case True
    with Cons.prems show ?thesis by (simp add: fullKey_def)
  next
    case False
    have "fullKey prefix k \<noteq> []" using Cons.prems by (simp add: fullKey_def)
    then have "codeKey (fullKey prefix k) p = fullKey prefix k @ ''.'' @ joinDot p"
      using False by (rule Cons.IH)
    then show ?thesis using Cons.prems False by (simp add: fullKey_def join_Cons)
  qed
qed

lemma codeKey_top: "p \<noteq> [] \<Longrightarrow> hd p \<noteq> [] \<Longrightarrow> codeKey [] p = joinDot p"
proof (cases p)
  case Nil
  assume "p \<noteq> []" with Nil show ?thesis by simp
next
  case (Cons k q)
  assume "hd p \<noteq> []"
  with Cons have k: "k \<noteq> []" by simp
  show ?thesis
  proof (cases "q = []")
    case True
    with Cons show ?thesis by (simp add: fullKey_def)
  next
    case False
    with k have "codeKey k q = k @ ''.'' @ joinDot q" by (rule codeKey_nonempty)
    with Cons False show ?thesis by (simp add: fullKey_def join_Cons)
  qed
qed

lemma leaves_path: "(p, v) \<in> set (leaves data) \<Longrightarrow> p \<noteq> [] \<and> hd p \<in> fst ` set data"
  by (induction data rule: leaves.induct) (auto split: go_value.splits)

lemma map_of_fold_update:
  "map_of (fold (\<lambda>(k, v). AList.update k v) kvs acc) = map_of acc ++ map_of (rev kvs)"
  by (induction kvs arbitrary: acc) (auto simp: update_conv' fun_eq_iff map_add_def split: option.splits)

lemma distinct_fold_update:
  "distinct (map fst acc) \<Longrightarrow> distinct (map fst (fold (\<lambda>(k, v). AList.update k v) kvs acc))"
  by (induction kvs arbitrary: acc) (auto simp: distinct_update)

lemma keys_fold_update:
  "set (map fst (fold (\<lambda>(k, v). AList.update k v) kvs acc)) = set (map fst acc) \<union> set (map fst kvs)"
proof (induction kvs arbitrary: acc)
  case Nil
  then show ?case by simp
next
  case (Cons kv kvs)
  obtain k v where kv: "kv = (k, v)" by (cases kv)
  have "set (map fst (AList.update k v acc)) = insert k (set (map fst acc))"
    by (auto simp: update_keys)
  with Cons [of "AList.update k v acc"] kv show ?case by auto
qed

lemma map_of_rev_distinct: "distinct (map fst xs) \<Longrightarrow> map_of (rev xs) = map_of xs"
  by (subst map_of_inject_set) (simp_all add: rev_map [symmetric])

lemma Flatten_fold:
  assumes "\<forall>(k, v) \<in> set data. k \<noteq> []"
  shows "Flatten data = fold (\<lambda>(k, v). AList.update k v) (dottedLeaves data) []"
proof -
  have step1: "Flatten data = fold (\<lambda>(p, v). AList.update (codeKey [] p) v) (leaves data) []"
    by (simp add: Flatten_def flattenRecursive_fold)
  have step2: "fold (\<lambda>(p, v). AList.update (codeKey [] p) v) (leaves data) []
      = fold (\<lambda>(p, v). AList.update (joinDot p) v) (leaves data) []"
  proof (rule fold_cong [OF refl refl])
    fix x assume x: "x \<in> set (leaves data)"
    obtain p v where pv: "x = (p, v)" by (cases x)
    with x have "p \<noteq> []" "hd p \<in> fst ` set data" using leaves_path by blast+
    with assms have "p \<noteq> []" "hd p \<noteq> []" by auto
    then have "codeKey [] p = joinDot p" by (rule codeKey_top)
    with pv show "(case x of (p, v) \<Rightarrow> AList.update (codeKey [] p) v)
        = (case x of (p, v) \<Rightarrow> AList.update (joinDot p) v)" by simp
  qed
  have comp: "(\<lambda>(k, v). AList.update k v) \<circ> (\<lambda>(p, v). (joinDot p, v))
      = (\<lambda>(p, v). AList.update (joinDot p) v)"
    by (auto simp: fun_eq_iff)
  show ?thesis
    by (simp only: step1 step2 dottedLeaves_def fold_map comp)
qed

text \<open>
  C6 (as amended). For every input map whose top-level keys are not empty and whose leaves
  have pairwise different dotted keys: every leaf appears in the output under its path
  joined with dots, every output entry is such a leaf, no key occurs twice in the output
  and the output has as many entries as the input has leaves. Values that are not maps
  (sequences included) are leaves and are not looked into. The empty map gives the empty
  result.
\<close>

theorem Flatten_totality_without_collisions:
  assumes nonempty: "\<forall>(k, v) \<in> set data. k \<noteq> []"
    and unique: "distinct (map fst (dottedLeaves data))"
  shows "(\<forall>(p, v) \<in> set (leaves data). map_of (Flatten data) (joinDot p) = Some v)
       \<and> (\<forall>k v. map_of (Flatten data) k = Some v \<longrightarrow>
             (\<exists>p. (p, v) \<in> set (leaves data) \<and> joinDot p = k))
       \<and> distinct (map fst (Flatten data))
       \<and> length (Flatten data) = length (leaves data)
       \<and> Flatten [] = []"
proof -
  let ?kvs = "dottedLeaves data"
  have F: "Flatten data = fold (\<lambda>(k, v). AList.update k v) ?kvs []"
    using nonempty by (rule Flatten_fold)
  have m: "map_of (Flatten data) = map_of ?kvs"
    using unique by (simp add: F map_of_fold_update map_of_rev_distinct)
  have d: "distinct (map fst (Flatten data))"
    unfolding F by (rule distinct_fold_update) simp
  have "set (map fst (Flatten data)) = set (map fst ?kvs)"
    unfolding F by (simp only: keys_fold_update) simp
  then have "card (set (map fst (Flatten data))) = card (set (map fst ?kvs))" by simp
  then have "length (map fst (Flatten data)) = length (map fst ?kvs)"
    using d unique by (simp only: distinct_card)
  then have len: "length (Flatten data) = length (leaves data)"
    by (simp add: dottedLeaves_def)
  have a: "\<forall>(p, v) \<in> set (leaves data). map_of (Flatten data) (joinDot p) = Some v"
  proof (clarify)
    fix p v assume "(p, v) \<in> set (leaves data)"
    then have "(joinDot p, v) \<in> set ?kvs" by (force simp: dottedLeaves_def)
    with unique show "map_of (Flatten data) (joinDot p) = Some v" by (simp add: m)
  qed
  have b: "\<forall>k v. map_of (Flatten data) k = Some v \<longrightarrow>
             (\<exists>p. (p, v) \<in> set (leaves data) \<and> joinDot p = k)"
  proof (intro allI impI)
    fix k v assume "map_of (Flatten data) k = Some v"
    then have "(k, v) \<in> set ?kvs" unfolding m by (rule map_of_SomeD)
    then show "\<exists>p. (p, v) \<in> set (leaves data) \<and> joinDot p = k"
      by (auto simp: dottedLeaves_def)
  qed
  have e: "Flatten [] = []" by (simp add: Flatten_def)
  from a b d len e show ?thesis by blast
qed

theorem Flatten_totality_without_collisions_witness:
  "map_of (Flatten [(''admin'', VMap [(''oauth2'', VMap [(''clientID'', VString ''abc123'')]),
                                       (''ports'', VSeq [VInt 80, VMap [(''x'', VInt 1)]])]),
                    (''db.url'', VString ''postgres://localhost'')])
      ''admin.oauth2.clientID'' = Some (VString ''abc123'')
   \<and> length (Flatten [(''admin'', VMap [(''oauth2'', VMap [(''clientID'', VString ''abc123'')]),
                                       (''ports'', VSeq [VInt 80, VMap [(''x'', VInt 1)]])]),
                    (''db.url'', VString ''postgres://localhost'')]) = 3"
proof -
  let ?d = "[(''admin'', VMap [(''oauth2'', VMap [(''clientID'', VString ''abc123'')]),
                                (''ports'', VSeq [VInt 80, VMap [(''x'', VInt 1)]])]),
             (''db.url'', VString ''postgres://localhost'')]"
  have h1: "\<forall>(k, v) \<in> set ?d. k \<noteq> []" by simp
  have h2: "distinct (map fst (dottedLeaves ?d))" by (simp add: dottedLeaves_def)
  have l: "([''admin'', ''oauth2'', ''clientID''], VString ''abc123'') \<in> set (leaves ?d)" by simp
  note t = Flatten_totality_without_collisions [OF h1 h2]
  from t l have "map_of (Flatten ?d) (joinDot [''admin'', ''oauth2'', ''clientID'']) = Some (VString ''abc123'')"
    by blast
  moreover from t have "length (Flatten ?d) = length (leaves ?d)" by blast
  ultimately show ?thesis by simp
qed

text \<open>
  The claim as first stated speaks of every input map. With the flat key \<open>a.b\<close> next to
  the nested \<open>a: {b: ...}\<close> the map has two leaves, both with the dotted key \<open>a.b\<close>;
  the second assignment overwrites the first, and the output has one entry: one leaf is
  missing, whichever of the two is visited first.
\<close>

theorem Flatten_collision_loses_a_leaf:
  "leaves [(''a.b'', VInt 1), (''a'', VMap [(''b'', VInt 2)])]
     = [([''a.b''], VInt 1), ([''a'', ''b''], VInt 2)]
   \<and> Flatten [(''a.b'', VInt 1), (''a'', VMap [(''b'', VInt 2)])] = [(''a.b'', VInt 2)]
   \<and> Flatten [(''a'', VMap [(''b'', VInt 2)]), (''a.b'', VInt 1)] = [(''a.b'', VInt 1)]"
  by (simp add: Flatten_def)

section \<open>The dry run\<close>

lemma dryRunLine_shape: "valueShape v = valueShape w \<Longrightarrow> dryRunLine k v = dryRunLine k w"
  by (cases v; cases w) (simp_all add: valueShape_def dryRunLine_def typeName_def)

lemma sort_keys_unique:
  assumes "distinct xs" "distinct ys" "set xs = set ys"
  shows "sort xs = sort (ys :: string list)"
  by (rule sorted_distinct_set_unique) (use assms in simp_all)

text \<open>
  C7. Two maps with the same keys whose values have, key by key, the same kind and, for
  strings, the same length give the same dry-run output: nothing of a value but its kind
  and its length reaches the output.
\<close>

theorem dry_run_shows_shape_only:
  assumes "distinct (map fst d1)"
    and "distinct (map fst d2)"
    and "set (map fst d1) = set (map fst d2)"
    and "\<forall>k \<in> set (map fst d1). valueShape (lookup d1 k) = valueShape (lookup d2 k)"
  shows "printDryRun path mount d1 = printDryRun path mount d2"
proof -
  have "card (set (map fst d1)) = card (set (map fst d2))"
    using assms(3) by simp
  then have "length (map fst d1) = length (map fst d2)"
    using assms(1,2) by (simp only: distinct_card)
  then have len: "length d1 = length d2" by simp
  have keys: "sort (map fst d1) = sort (map fst d2)"
    using assms(1,2,3) by (rule sort_keys_unique)
  have lines: "map (\<lambda>k. dryRunLine k (lookup d1 k)) (sort (map fst d1))
      = map (\<lambda>k. dryRunLine k (lookup d2 k)) (sort (map fst d1))"
  proof (rule map_cong [OF refl])
    fix k assume "k \<in> set (sort (map fst d1))"
    then have "k \<in> set (map fst d1)" by simp
    with assms(4) have "valueShape (lookup d1 k) = valueShape (lookup d2 k)" by blast
    then show "dryRunLine k (lookup d1 k) = dryRunLine k (lookup d2 k)"
      by (rule dryRunLine_shape)
  qed
  show ?thesis
    unfolding printDryRun_def lines len by (simp only: keys)
qed

theorem dry_run_shows_shape_only_witness:
  "printDryRun ''app'' ''secret'' [(''password'', VString ''hunter2''), (''port'', VInt 5432)]
   = printDryRun ''app'' ''secret'' [(''port'', VInt 80), (''password'', VString ''letmein'')]"
  using dry_run_shows_shape_only
    [of "[(''password'', VString ''hunter2''), (''port'', VInt 5432)]"
        "[(''port'', VInt 80), (''password'', VString ''letmein'')]" "''app''" "''secret''"]
  by (simp add: lookup_def valueShape_def typeName_def insert_commute)

lemma printDryRun_example:
  "printDryRun ''app'' ''secret'' [(''password'', VString ''hunter2''), (''port'', VInt 5432)]
   = ''[dry-run] Would write to Vault path: secret/app'' @ [newline] @
     ''[dry-run] 2 secrets:'' @ [newline] @
     ''  password = <string, 7 chars>'' @ [newline] @
     ''  port = <int>'' @ [newline]"
  by code_simp

section \<open>The repository's tests, replayed on the model\<close>

text \<open>
  The cases of \<open>TestUpdateCounterpartFile\<close> and \<open>TestFlatten\<close>, with the parsed tree in
  place of the YAML text and the expected tree in place of the expected text.
\<close>

lemma test_updates_flat_keys:
  "upsertKeys ''secret/myapp''
     (Node MappingNode 0 [] [] []
        [newScalar ''password'', newScalar ''placeholder'',
         newScalar ''db_url'', newScalar ''placeholder''])
     [''password'', ''db_url'']
   = Inr (Node MappingNode 0 [] [] []
        [newScalar ''password'', newScalar ''ref+vault://secret/myapp/password#value'',
         newScalar ''db_url'', newScalar ''ref+vault://secret/myapp/db_url#value''])"
  by (simp add: upsertKey_def overwriteAt_def setScalar_def newScalar_def withContent_def
                vaultRef_def)

lemma test_updates_nested_keys:
  "upsertKeys ''secret/myapp''
     (Node MappingNode 0 [] [] []
        [newScalar ''admin'',
         Node MappingNode 0 [] [] []
           [newScalar ''oauth2'',
            Node MappingNode 0 [] [] [] [newScalar ''clientID'', newScalar ''placeholder'']]])
     [''admin.oauth2.clientID'']
   = Inr (Node MappingNode 0 [] [] []
        [newScalar ''admin'',
         Node MappingNode 0 [] [] []
           [newScalar ''oauth2'',
            Node MappingNode 0 [] [] []
              [newScalar ''clientID'',
               newScalar ''ref+vault://secret/myapp/admin.oauth2.clientID#value'']]])"
  by (simp add: upsertKey_def overwriteAt_def setScalar_def newScalar_def withContent_def
                vaultRef_def)

lemma test_adds_new_key_at_deepest_nested_path:
  "upsertKeys ''secret/myapp''
     (Node MappingNode 0 [] [] []
        [newScalar ''api'',
         Node MappingNode 0 [] [] []
           [newScalar ''config'',
            Node MappingNode 0 [] [] [] [newScalar ''db.max_conn'', newScalar ''1'']]])
     [''api.config.db.min_conn'']
   = Inr (Node MappingNode 0 [] [] []
        [newScalar ''api'',
         Node MappingNode 0 [] [] []
           [newScalar ''config'',
            Node MappingNode 0 [] [] []
              [newScalar ''db.max_conn'', newScalar ''1'',
               newScalar ''db.min_conn'',
               newScalar ''ref+vault://secret/myapp/api.config.db.min_conn#value'']]])"
  by (simp add: upsertKey_def hasFlatKeys_def contains_def newScalar_def withContent_def
                vaultRef_def)

lemma test_adds_new_key_at_deeper_nested_path:
  "upsertKeys ''secret/myapp''
     (Node MappingNode 0 [] [] []
        [newScalar ''api'',
         Node MappingNode 0 [] [] []
           [newScalar ''config'',
            Node MappingNode 0 [] [] []
              [newScalar ''repair'',
               Node MappingNode 0 [] [] [] [newScalar ''abc.123'', newScalar ''1'']]]])
     [''api.config.repair.abc.456'']
   = Inr (Node MappingNode 0 [] [] []
        [newScalar ''api'',
         Node MappingNode 0 [] [] []
           [newScalar ''config'',
            Node MappingNode 0 [] [] []
              [newScalar ''repair'',
               Node MappingNode 0 [] [] []
                 [newScalar ''abc.123'', newScalar ''1'',
                  newScalar ''abc.456'',
                  newScalar ''ref+vault://secret/myapp/api.config.repair.abc.456#value'']]]])"
  by (simp add: upsertKey_def hasFlatKeys_def contains_def newScalar_def withContent_def
                vaultRef_def)

lemma test_detectIndent_two_spaces:
  "detectIndent (''admin:'' @ [newline] @ ''  password: placeholder'' @ [newline]) = 2"
  by (simp add: detectIndent_def newline_def)

lemma test_Flatten_nested_map:
  "Flatten
     [(''admin'', VMap [(''oauth2'', VMap [(''clientID'', VString ''abc123''),
                                           (''clientSecret'', VString ''secret'')]),
                        (''publicAddress'', VString ''https://example.com'')]),
      (''db'', VMap [(''url'', VString ''postgres://localhost'')])]
   = [(''admin.oauth2.clientID'', VString ''abc123''),
      (''admin.oauth2.clientSecret'', VString ''secret''),
      (''admin.publicAddress'', VString ''https://example.com''),
      (''db.url'', VString ''postgres://localhost'')]"
  by (simp add: Flatten_def)

lemma test_Flatten_mixed_types:
  "Flatten [(''string'', VString ''value''), (''number'', VInt 42), (''bool'', VBool True),
            (''nested'', VMap [(''inner'', VString ''innerValue'')])]
   = [(''string'', VString ''value''), (''number'', VInt 42), (''bool'', VBool True),
      (''nested.inner'', VString ''innerValue'')]"
  by (simp add: Flatten_def)

lemma test_skips_nonexistent_file:
  "updateCounterpartFile unmarshal encode Map.empty ''nonexistent.yaml'' ''secret/test'' [''key'']
   = Inr (Map.empty, False, None)"
  by (simp add: updateCounterpartFile_def)

end
